theory Spec2Isabelle
  imports Main
begin

section \<open>String primitives of the Go standard library used by the router\<close>

text \<open>
  Go strings are byte sequences; they are modelled as \<open>string\<close> (a list of 8-bit
  characters).  Every call site of the router passes the one-byte separator \<open>"/"\<close>, so the
  separator of \<open>Split\<close>, \<open>Join\<close> and \<open>LastIndex\<close> is a single character.
\<close>

definition HasPrefix :: "string \<Rightarrow> string \<Rightarrow> bool" where
  "HasPrefix s pre = (take (length pre) s = pre)"

definition TrimPrefix :: "string \<Rightarrow> string \<Rightarrow> string" where
  "TrimPrefix s pre = (if HasPrefix s pre then drop (length pre) s else s)"

text \<open>\<open>strings.Split(s, sep)\<close>: always at least one token; the empty string gives one
  empty token.  A byte that is not the separator extends the first token of the rest (the
  rest always has one, so the \<open>[]\<close> branch is never taken).\<close>

fun Split :: "string \<Rightarrow> char \<Rightarrow> string list" where
  "Split [] sep = [[]]"
| "Split (c # cs) sep =
     (if c = sep then [] # Split cs sep
      else (case Split cs sep of [] \<Rightarrow> [[c]] | t # ts \<Rightarrow> (c # t) # ts))"

text \<open>\<open>strings.Join(elems, sep)\<close>.\<close>

fun Join :: "string list \<Rightarrow> char \<Rightarrow> string" where
  "Join [] sep = []"
| "Join [t] sep = t"
| "Join (t # u # ts) sep = t @ sep # Join (u # ts) sep"

text \<open>\<open>strings.LastIndex(s, sep)\<close>: the index of the last occurrence, or \<open>-1\<close>.\<close>

fun LastIndex :: "string \<Rightarrow> char \<Rightarrow> int" where
  "LastIndex [] sep = - 1"
| "LastIndex (c # cs) sep =
     (let i = LastIndex cs sep in
      if 0 \<le> i then i + 1 else if c = sep then 0 else - 1)"

section \<open>Data model\<close>

text \<open>A handler is a Go function value; \<open>None\<close> is the \<open>nil\<close> function.\<close>

type_synonym 'h Handler = "'h option"

record param =
  name :: string
  fixed :: bool

record 'h Route =
  prefix :: string
  partNames :: "param list"
  function' :: "'h Handler"

record 'h Routes =
  roots :: "string \<rightharpoonup> 'h Route list"

definition NewRoutes :: "'h Routes" where
  "NewRoutes = \<lparr>roots = Map.empty\<rparr>"

text \<open>Reading a Go map at a missing key yields the zero value, here the \<open>nil\<close> slice.\<close>

definition bucket :: "'h Routes \<Rightarrow> string \<Rightarrow> 'h Route list" where
  "bucket r k = (case roots r k of None \<Rightarrow> [] | Some rs \<Rightarrow> rs)"

section \<open>Registration\<close>

text \<open>The \<open>for _, p := range parts\<close> loop of \<open>Add\<close>, with its three loop variables.\<close>

fun Add_loop :: "string list \<Rightarrow> string list \<Rightarrow> param list \<Rightarrow> bool
    \<Rightarrow> string list \<times> param list" where
  "Add_loop [] rootParts varParts paramsFound = (rootParts, varParts)"
| "Add_loop (p # ps) rootParts varParts paramsFound =
     (let paramsFound = (if HasPrefix p '':'' then True else paramsFound) in
      if paramsFound then
        (if HasPrefix p '':''
         then Add_loop ps rootParts
                (varParts @ [\<lparr>name = TrimPrefix p '':'', fixed = False\<rparr>]) paramsFound
         else Add_loop ps rootParts (varParts @ [\<lparr>name = p, fixed = True\<rparr>]) paramsFound)
      else Add_loop ps (rootParts @ [p]) varParts paramsFound)"

definition Add :: "'h Routes \<Rightarrow> string \<Rightarrow> 'h Handler \<Rightarrow> 'h Routes" where
  "Add r path f =
     (let parts = Split path CHR ''/'';
          (rootParts, varParts) = Add_loop parts [] [] False;
          root = Join rootParts CHR ''/''
      in r\<lparr>roots := (roots r)(root \<mapsto>
             bucket r root @ [\<lparr>prefix = root, partNames = varParts, function' = f\<rparr>])\<rparr>)"

section \<open>Resolution\<close>

text \<open>An index read past the end of a slice is a run-time panic in Go.\<close>

datatype error = IndexOutOfRange

text \<open>The triple returned by \<open>Get\<close> and \<open>matchRoutes\<close>: handler, parameter map
  (\<open>None\<close> is the \<open>nil\<close> map) and the found flag.\<close>

type_synonym 'h lookup = "'h Handler \<times> (string \<rightharpoonup> string) option \<times> bool"

definition cleanArray :: "string list \<Rightarrow> string list" where
  "cleanArray a = filter (\<lambda>s. s \<noteq> []) a"

text \<open>The inner \<open>for i, p := range r.partNames\<close> loop of \<open>matchRoutes\<close>.  The result is
  \<open>Inl\<close> when \<open>params[i]\<close> is read out of range, \<open>Inr None\<close> for \<open>continue outer\<close> and
  \<open>Inr (Some paramNames)\<close> when the loop runs to its end.\<close>

fun match_params :: "string list \<Rightarrow> nat \<Rightarrow> param list \<Rightarrow> (string \<rightharpoonup> string)
    \<Rightarrow> error + (string \<rightharpoonup> string) option" where
  "match_params params i [] paramNames = Inr (Some paramNames)"
| "match_params params i (p # ps) paramNames =
     (if \<not> i < length params then Inl IndexOutOfRange
      else if fixed p then
        (if params ! i \<noteq> name p then Inr None
         else match_params params (Suc i) ps paramNames)
      else match_params params (Suc i) ps (paramNames(name p \<mapsto> params ! i)))"

text \<open>The raw tokens of the suffix of \<open>path\<close> behind an entry's prefix.\<close>

definition raw_tokens :: "string \<Rightarrow> 'h Route \<Rightarrow> string list" where
  "raw_tokens path r = Split (TrimPrefix (TrimPrefix path (prefix r)) ''/'') CHR ''/''"

fun matchRoutes :: "string \<Rightarrow> 'h Route list \<Rightarrow> error + 'h lookup" where
  "matchRoutes path [] = Inr (None, None, False)"
| "matchRoutes path (r # rs) =
     (if length (cleanArray (raw_tokens path r)) = length (partNames r) then
        (case match_params (raw_tokens path r) 0 (partNames r) Map.empty of
           Inl e \<Rightarrow> Inl e
         | Inr None \<Rightarrow> matchRoutes path rs
         | Inr (Some paramNames) \<Rightarrow> Inr (function' r, Some paramNames, True))
      else matchRoutes path rs)"

text \<open>The \<open>for\<close> loop of \<open>Get\<close>.  The receiver is threaded through and returned, so that
  what the call does to the route table is part of its result.\<close>

function Get_loop :: "'h Routes \<Rightarrow> string \<Rightarrow> string \<Rightarrow> (error + 'h lookup) \<times> 'h Routes" where
  "Get_loop r path remaining =
     (case roots r remaining of
        Some routes \<Rightarrow> (matchRoutes path routes, r)
      | None \<Rightarrow>
          if length remaining < 2 then (Inr (None, None, False), r)
          else if LastIndex remaining CHR ''/'' < 0 then (Inr (None, None, False), r)
          else if 0 < LastIndex remaining CHR ''/''
          then Get_loop r path (take (nat (LastIndex remaining CHR ''/'')) remaining)
          else Get_loop r path ''/'')"
  by pat_completeness auto
termination
proof (relation "measure (\<lambda>(r, path, remaining). length remaining)")
  show "wf (measure (\<lambda>(r, path, remaining). length remaining))" by simp
next
  fix r :: "'h Routes" and path remaining :: string
  assume "0 < LastIndex remaining CHR ''/''"
  moreover have "LastIndex remaining CHR ''/'' < int (length remaining)"
    by (induct remaining) (auto simp: Let_def)
  ultimately show "((r, path, take (nat (LastIndex remaining CHR ''/'')) remaining),
      (r, path, remaining)) \<in> measure (\<lambda>(r, path, remaining). length remaining)"
    by simp
next
  fix r :: "'h Routes" and path remaining :: string
  assume "\<not> length remaining < 2"
  then show "((r, path, ''/''), (r, path, remaining))
      \<in> measure (\<lambda>(r, path, remaining). length remaining)"
    by simp
qed

definition Get :: "'h Routes \<Rightarrow> string \<Rightarrow> (error + 'h lookup) \<times> 'h Routes" where
  "Get r path = Get_loop r path path"

section \<open>Notions used to state the properties\<close>

text \<open>The values the loop variable \<open>remaining\<close> of \<open>Get\<close> takes when no bucket lookup
  succeeds: the loop of \<open>Get\<close> without its map read.\<close>

function truncations :: "string \<Rightarrow> string list" where
  "truncations remaining =
     remaining #
       (if length remaining < 2 then []
        else if LastIndex remaining CHR ''/'' < 0 then []
        else if 0 < LastIndex remaining CHR ''/''
        then truncations (take (nat (LastIndex remaining CHR ''/'')) remaining)
        else truncations ''/'')"
  by pat_completeness auto
termination
proof (relation "measure length")
  show "wf (measure (length :: string \<Rightarrow> nat))" by simp
next
  fix remaining :: string
  assume "0 < LastIndex remaining CHR ''/''"
  moreover have "LastIndex remaining CHR ''/'' < int (length remaining)"
    by (induct remaining) (auto simp: Let_def)
  ultimately show "(take (nat (LastIndex remaining CHR ''/'')) remaining, remaining)
      \<in> measure length"
    by simp
next
  fix remaining :: string
  assume "\<not> length remaining < 2"
  then show "(''/'', remaining) \<in> measure length"
    by simp
qed

text \<open>Resolution as the specification words it: the first truncation of the path that is
  a bucket key selects the only bucket that is searched, with the full path.\<close>

definition Get_spec :: "'h Routes \<Rightarrow> string \<Rightarrow> (error + 'h lookup) \<times> 'h Routes" where
  "Get_spec r path =
     (case List.find (\<lambda>k. roots r k \<noteq> None) (truncations path) of
        None \<Rightarrow> (Inr (None, None, False), r)
      | Some k \<Rightarrow> (matchRoutes path (bucket r k), r))"

text \<open>An entry satisfies a path, in the words of the matching rules: the number of
  non-empty tokens equals the number of segments, and every fixed segment equals the raw
  token at its index.\<close>

definition satisfies :: "string \<Rightarrow> 'h Route \<Rightarrow> bool" where
  "satisfies path e =
     (length (cleanArray (raw_tokens path e)) = length (partNames e) \<and>
      (\<forall>i < length (partNames e).
         fixed (partNames e ! i) \<longrightarrow> raw_tokens path e ! i = name (partNames e ! i)))"

text \<open>The captures of an entry: each variable segment records the raw token at its
  index under its name, a later segment overwriting an earlier one of the same name.\<close>

definition captures :: "string \<Rightarrow> 'h Route \<Rightarrow> (string \<rightharpoonup> string)" where
  "captures path e =
     fold (\<lambda>i m. if fixed (partNames e ! i) then m
                  else m(name (partNames e ! i) \<mapsto> raw_tokens path e ! i))
          [0 ..< length (partNames e)] Map.empty"

text \<open>The entries registered in a table.\<close>

definition entries :: "'h Routes \<Rightarrow> 'h Route set" where
  "entries r = {e. \<exists>k rs. roots r k = Some rs \<and> e \<in> set rs}"

text \<open>A token that marks a parameter, and the segment a token is stored as.\<close>

definition is_param :: "string \<Rightarrow> bool" where
  "is_param p = HasPrefix p '':''"

definition segment :: "string \<Rightarrow> param" where
  "segment p = (if is_param p then \<lparr>name = TrimPrefix p '':'', fixed = False\<rparr>
                else \<lparr>name = p, fixed = True\<rparr>)"

text \<open>The static prefix and the segments of a pattern in the specification's words: the
  longest leading run of tokens without a parameter token, rejoined, and every token from
  the first parameter token on.\<close>

definition static_prefix :: "string \<Rightarrow> string" where
  "static_prefix pattern =
     Join (takeWhile (\<lambda>p. \<not> is_param p) (Split pattern CHR ''/'')) CHR ''/''"

definition segments :: "string \<Rightarrow> param list" where
  "segments pattern = map segment (dropWhile (\<lambda>p. \<not> is_param p) (Split pattern CHR ''/''))"

definition entry_of :: "string \<Rightarrow> 'h Handler \<Rightarrow> 'h Route" where
  "entry_of pattern f =
     \<lparr>prefix = static_prefix pattern, partNames = segments pattern, function' = f\<rparr>"

text \<open>A route table built from the empty one by a sequence of registrations.\<close>

definition build :: "(string \<times> 'h Handler) list \<Rightarrow> 'h Routes" where
  "build regs = foldl (\<lambda>r (pattern, f). Add r pattern f) NewRoutes regs"

text \<open>A table without its bucket for the empty key.\<close>

definition drop_empty_key :: "'h Routes \<Rightarrow> 'h Routes" where
  "drop_empty_key r = r\<lparr>roots := (roots r)([] := None)\<rparr>"

text \<open>A pattern without a parameter token.\<close>

definition no_params :: "string \<Rightarrow> bool" where
  "no_params pattern = (\<forall>p \<in> set (Split pattern CHR ''/''). \<not> is_param p)"

text \<open>A table without the entries of the bucket for the empty key that have the empty
  prefix and at least one segment, as \<open>Add\<close> makes them from a pattern whose first token is
  a parameter (or whose only token before it is empty, as in \<open>/:id\<close>).\<close>

definition drop_leading_params :: "'h Routes \<Rightarrow> 'h Routes" where
  "drop_leading_params r =
     r\<lparr>roots := (\<lambda>k. if k = []
        then map_option (filter (\<lambda>e. \<not> (prefix e = [] \<and> partNames e \<noteq> []))) (roots r k)
        else roots r k)\<rparr>"

section \<open>Auxiliary facts\<close>

declare Get_loop.simps [simp del] truncations.simps [simp del]

lemma Split_not_Nil: "Split s sep \<noteq> []"
  by (induction s) (auto split: list.split)

lemma Join_Cons: "ts \<noteq> [] \<Longrightarrow> Join (t # ts) sep = t @ sep # Join ts sep"
  by (cases ts) auto

lemma Join_Split: "Join (Split s sep) sep = s"
proof (induction s)
  case Nil
  show ?case by simp
next
  case (Cons c cs)
  obtain t ts where ts: "Split cs sep = t # ts"
    using Split_not_Nil [of cs sep] by (cases "Split cs sep") auto
  show ?case
  proof (cases "c = sep")
    case True
    then show ?thesis using Cons by (simp add: Join_Cons Split_not_Nil)
  next
    case False
    then show ?thesis using Cons ts by (cases ts) auto
  qed
qed

lemma LastIndex_less: "LastIndex s sep < int (length s)"
  by (induction s) (auto simp: Let_def)

lemma LastIndex_neg_iff: "LastIndex s sep < 0 \<longleftrightarrow> sep \<notin> set s"
  by (induction s) (auto simp: Let_def)

lemma LastIndex_decomp:
  "0 \<le> LastIndex s sep \<Longrightarrow>
     s = take (nat (LastIndex s sep)) s @ sep # drop (Suc (nat (LastIndex s sep))) s \<and>
     sep \<notin> set (drop (Suc (nat (LastIndex s sep))) s)"
proof (induction s)
  case Nil
  then show ?case by simp
next
  case (Cons c cs)
  show ?case
  proof (cases "0 \<le> LastIndex cs sep")
    case True
    then have "nat (LastIndex cs sep + 1) = Suc (nat (LastIndex cs sep))" by simp
    with True Cons.IH show ?thesis by (simp add: Let_def)
  next
    case False
    with Cons.prems have c: "c = sep" by (simp add: Let_def split: if_splits)
    from False have "sep \<notin> set cs" using LastIndex_neg_iff [of cs sep] by linarith
    with False c show ?thesis by (simp add: Let_def)
  qed
qed

lemma length_cleanArray: "length (cleanArray a) \<le> length a"
  by (simp add: cleanArray_def)

lemma match_params_in_bounds:
  "i + length ps \<le> length params \<Longrightarrow> match_params params i ps m \<noteq> Inl e"
proof (induction ps arbitrary: i m)
  case Nil
  show ?case by simp
next
  case (Cons p ps)
  from Cons.prems have i: "i < length params" and "Suc i + length ps \<le> length params"
    by simp_all
  then have "\<And>m. match_params params (Suc i) ps m \<noteq> Inl e"
    using Cons.IH by blast
  with i show ?case by simp
qed

lemma matchRoutes_total: "\<exists>res. matchRoutes path rs = Inr res"
proof (induction rs)
  case Nil
  show ?case by auto
next
  case (Cons r rs)
  show ?case
  proof (cases "length (cleanArray (raw_tokens path r)) = length (partNames r)")
    case True
    then have "0 + length (partNames r) \<le> length (raw_tokens path r)"
      using length_cleanArray [of "raw_tokens path r"] by simp
    then have "\<And>e. match_params (raw_tokens path r) 0 (partNames r) Map.empty \<noteq> Inl e"
      by (rule match_params_in_bounds)
    with True Cons show ?thesis
      by (auto split: sum.splits option.splits)
  next
    case False
    with Cons show ?thesis by simp
  qed
qed

lemma Get_loop_find:
  "Get_loop r path remaining =
     (case List.find (\<lambda>k. roots r k \<noteq> None) (truncations remaining) of
        None \<Rightarrow> (Inr (None, None, False), r)
      | Some k \<Rightarrow> (matchRoutes path (bucket r k), r))"
proof (induction r path remaining rule: Get_loop.induct)
  case (1 r path remaining)
  show ?case
  proof (cases "roots r remaining")
    case (Some routes)
    then show ?thesis
      by (subst Get_loop.simps, subst truncations.simps) (simp add: bucket_def)
  next
    case None
    then show ?thesis
      using "1.IH"
      by (subst Get_loop.simps, subst truncations.simps) simp
  qed
qed

lemmas eval_defs = Get_def Add_def NewRoutes_def bucket_def HasPrefix_def TrimPrefix_def
  raw_tokens_def cleanArray_def Let_def Get_loop.simps

section \<open>Totality of resolution\<close>

text \<open>
  Claim C2.  For every route table (in particular every table built by registrations) and
  every path, empty or with doubled or trailing slashes, \<open>Get\<close> returns a triple and
  does not panic, and so does \<open>matchRoutes\<close> on every bucket.  Whenever the length
  check on the cleaned tokens has passed, every index the segment loop reads lies inside
  the raw token list, so the loop never reads out of range.  That the loop of \<open>Get\<close>
  ends is the termination proof of \<open>Get_loop\<close>.
\<close>

theorem Get_total:
  "(\<exists>h m found. fst (Get r path) = Inr (h, m, found)) \<and>
   (\<exists>h m found. matchRoutes path rs = Inr (h, m, found)) \<and>
   (length (cleanArray (raw_tokens path e)) = length (partNames e) \<longrightarrow>
      (\<forall>i < length (partNames e). i < length (raw_tokens path e)) \<and>
      (\<forall>m err. match_params (raw_tokens path e) 0 (partNames e) m \<noteq> Inl err))"
proof (intro conjI impI)
  have "\<exists>res. fst (Get r path) = Inr res"
    unfolding Get_def Get_loop_find
    using matchRoutes_total [of path]
    by (auto split: option.split)
  then show "\<exists>h m found. fst (Get r path) = Inr (h, m, found)"
    by (metis prod_cases3)
next
  show "\<exists>h m found. matchRoutes path rs = Inr (h, m, found)"
    using matchRoutes_total [of path rs] by (metis prod_cases3)
next
  assume len: "length (cleanArray (raw_tokens path e)) = length (partNames e)"
  then have le: "length (partNames e) \<le> length (raw_tokens path e)"
    using length_cleanArray [of "raw_tokens path e"] by simp
  then show "\<forall>i < length (partNames e). i < length (raw_tokens path e)"
    by simp
  from le show "\<forall>m err. match_params (raw_tokens path e) 0 (partNames e) m \<noteq> Inl err"
    by (simp add: match_params_in_bounds)
qed

theorem Get_total_witness:
  "length (cleanArray (raw_tokens ''/users//42''
       \<lparr>prefix = ''/users'', partNames = [\<lparr>name = ''id'', fixed = False\<rparr>],
        function' = Some ()\<rparr>)) = length [\<lparr>name = ''id'', fixed = False\<rparr>] \<and>
   (\<exists>h m found. fst (Get (Add NewRoutes ''/users/:id'' (Some ())) ''/users//42'')
       = Inr (h, m, found)) \<and>
   (\<forall>m err. match_params (raw_tokens ''/users//42''
       \<lparr>prefix = ''/users'', partNames = [\<lparr>name = ''id'', fixed = False\<rparr>],
        function' = Some ()\<rparr>) 0 [\<lparr>name = ''id'', fixed = False\<rparr>] m \<noteq> Inl err)"
  using Get_total [of "Add NewRoutes ''/users/:id'' (Some ())" "''/users//42''" "[]"
      "\<lparr>prefix = ''/users'', partNames = [\<lparr>name = ''id'', fixed = False\<rparr>],
        function' = Some ()\<rparr>"]
  by (simp add: raw_tokens_def cleanArray_def HasPrefix_def TrimPrefix_def)

section \<open>Captures\<close>

text \<open>
  Claim C5.  Registered on the empty table, \<open>/users/:id\<close> resolves \<open>/users/42\<close> to its
  handler with \<open>id\<close> bound to \<open>42\<close>, and \<open>/users/:id/posts/:postId\<close> resolves
  \<open>/users/42/posts/7\<close> to its handler with \<open>id\<close> bound to \<open>42\<close> and \<open>postId\<close> bound
  to \<open>7\<close>.
\<close>

theorem capture_examples:
  "fst (Get (Add NewRoutes ''/users/:id'' h) ''/users/42'')
     = Inr (h, Some [''id'' \<mapsto> ''42''], True) \<and>
   fst (Get (Add NewRoutes ''/users/:id/posts/:postId'' h) ''/users/42/posts/7'')
     = Inr (h, Some [''id'' \<mapsto> ''42'', ''postId'' \<mapsto> ''7''], True)"
  by (simp add: eval_defs)

text \<open>
  Claim C10.  The length check counts the non-empty tokens but the captures index the raw
  split: after registering \<open>/users/:id\<close>, the path with a doubled slash is found with
  \<open>id\<close> bound to the empty raw token at index 0, and the path with a trailing slash is
  found with \<open>id\<close> bound to \<open>42\<close>.
\<close>

theorem raw_index_examples:
  "fst (Get (Add NewRoutes ''/users/:id'' h) ''/users//42'')
     = Inr (h, Some [''id'' \<mapsto> ''''], True) \<and>
   fst (Get (Add NewRoutes ''/users/:id'' h) ''/users/42/'')
     = Inr (h, Some [''id'' \<mapsto> ''42''], True)"
  by (simp add: eval_defs)

section \<open>Prefix fallback\<close>

lemma HasPrefix_iff: "HasPrefix s pre \<longleftrightarrow> (\<exists>rest. s = pre @ rest)"
proof
  assume "HasPrefix s pre"
  then have "take (length pre) s = pre" by (simp add: HasPrefix_def)
  then have "s = pre @ drop (length pre) s"
    using append_take_drop_id [of "length pre" s] by simp
  then show "\<exists>rest. s = pre @ rest" ..
next
  assume "\<exists>rest. s = pre @ rest"
  then show "HasPrefix s pre" by (auto simp: HasPrefix_def)
qed

lemma HasPrefix_refl: "HasPrefix s s"
  by (simp add: HasPrefix_def)

lemma HasPrefix_take: "HasPrefix s (take n s)"
  unfolding HasPrefix_iff using append_take_drop_id [of n s] by metis

lemma HasPrefix_trans: "HasPrefix b a \<Longrightarrow> HasPrefix c b \<Longrightarrow> HasPrefix c a"
  unfolding HasPrefix_iff by auto

lemma HasPrefix_length: "HasPrefix s pre \<Longrightarrow> length pre \<le> length s"
  unfolding HasPrefix_iff by auto

text \<open>One turn of the loop of \<open>Get\<close> behind a failed lookup.\<close>

lemma truncations_stop:
  "length remaining < 2 \<or> LastIndex remaining CHR ''/'' < 0 \<Longrightarrow>
     truncations remaining = [remaining]"
  by (subst truncations.simps) auto

lemma truncations_cut:
  "\<not> length remaining < 2 \<Longrightarrow> 0 < LastIndex remaining CHR ''/'' \<Longrightarrow>
     truncations remaining =
       remaining # truncations (take (nat (LastIndex remaining CHR ''/'')) remaining)"
  by (subst truncations.simps) auto

lemma truncations_root:
  "\<not> length remaining < 2 \<Longrightarrow> LastIndex remaining CHR ''/'' = 0 \<Longrightarrow>
     truncations remaining = remaining # truncations ''/''"
  by (subst truncations.simps) auto

lemma truncations_slash: "truncations ''/'' = [''/'']"
  by (rule truncations_stop) simp

lemma hd_truncations: "hd (truncations remaining) = remaining"
  by (subst truncations.simps) simp

lemma truncations_not_Nil: "truncations remaining \<noteq> []"
  by (subst truncations.simps) simp

lemma truncations_cases:
  obtains (stop) "truncations remaining = [remaining]"
  | (cut) "2 \<le> length remaining" "0 < LastIndex remaining CHR ''/''"
      "truncations remaining =
         remaining # truncations (take (nat (LastIndex remaining CHR ''/'')) remaining)"
  | (root) "2 \<le> length remaining" "LastIndex remaining CHR ''/'' = 0"
      "truncations remaining = [remaining, ''/'']"
proof (cases "length remaining < 2 \<or> LastIndex remaining CHR ''/'' < 0")
  case True
  then show ?thesis using stop truncations_stop by blast
next
  case False
  show ?thesis
  proof (cases "0 < LastIndex remaining CHR ''/''")
    case True
    with False show ?thesis using cut truncations_cut [of remaining] by auto
  next
    case F: False
    with False have "LastIndex remaining CHR ''/'' = 0" by auto
    with False show ?thesis
      using root truncations_root [of remaining] truncations_slash by auto
  qed
qed

lemma truncations_bound:
  "t \<in> set (truncations remaining) \<Longrightarrow> HasPrefix remaining t \<and> length t \<le> length remaining"
proof (induction remaining arbitrary: t rule: truncations.induct)
  case (1 remaining)
  show ?case
  proof (cases remaining rule: truncations_cases)
    case stop
    with "1.prems" show ?thesis by (simp add: HasPrefix_refl)
  next
    case cut
    let ?s = "take (nat (LastIndex remaining CHR ''/'')) remaining"
    show ?thesis
    proof (cases "t = remaining")
      case True
      then show ?thesis by (simp add: HasPrefix_refl)
    next
      case False
      with "1.prems" cut have "t \<in> set (truncations ?s)" by simp
      with cut "1.IH"(1) have "HasPrefix ?s t \<and> length t \<le> length ?s" by simp
      then show ?thesis
        using HasPrefix_trans [OF _ HasPrefix_take [of remaining "nat (LastIndex remaining CHR ''/'')"], of t]
        by simp
    qed
  next
    case root
    from root(2) have "0 \<le> LastIndex remaining CHR ''/''" by simp
    from LastIndex_decomp [OF this] root(2) have "remaining = CHR ''/'' # drop 1 remaining"
      by simp
    then have "HasPrefix remaining ''/''"
      unfolding HasPrefix_iff by (metis append_Cons append_Nil)
    with "1.prems" root show ?thesis by (auto simp: HasPrefix_refl)
  qed
qed

lemma truncations_decreasing:
  "sorted_wrt (\<lambda>a b. length b < length a) (truncations remaining)"
proof (induction remaining rule: truncations.induct)
  case (1 remaining)
  show ?case
  proof (cases remaining rule: truncations_cases)
    case stop
    then show ?thesis by simp
  next
    case cut
    let ?s = "take (nat (LastIndex remaining CHR ''/'')) remaining"
    have "length ?s < length remaining"
      using LastIndex_less [of remaining "CHR ''/''"] cut(2) by simp
    then have "\<forall>t \<in> set (truncations ?s). length t < length remaining"
      using truncations_bound [of _ ?s] by fastforce
    with cut "1.IH"(1) show ?thesis by simp
  next
    case root
    then show ?thesis by simp
  qed
qed

lemma truncations_step:
  "successively (\<lambda>a b. \<exists>seg. CHR ''/'' \<notin> set seg \<and>
       (a = b @ ''/'' @ seg \<or> (b = ''/'' \<and> a = ''/'' @ seg)))
     (truncations remaining)"
proof (induction remaining rule: truncations.induct)
  case (1 remaining)
  show ?case
  proof (cases remaining rule: truncations_cases)
    case stop
    then show ?thesis by simp
  next
    case cut
    let ?s = "take (nat (LastIndex remaining CHR ''/'')) remaining"
    let ?seg = "drop (Suc (nat (LastIndex remaining CHR ''/''))) remaining"
    from cut(2) have "0 \<le> LastIndex remaining CHR ''/''" by simp
    from LastIndex_decomp [OF this]
    have "remaining = ?s @ ''/'' @ ?seg" and "CHR ''/'' \<notin> set ?seg" by simp_all
    then have "\<exists>seg. CHR ''/'' \<notin> set seg \<and>
       (remaining = ?s @ ''/'' @ seg \<or> (?s = ''/'' \<and> remaining = ''/'' @ seg))"
      by blast
    with cut "1.IH"(1) show ?thesis
      by (simp add: successively_Cons hd_truncations)
  next
    case root
    from root(2) have "0 \<le> LastIndex remaining CHR ''/''" by simp
    from LastIndex_decomp [OF this] root(2)
    have "remaining = ''/'' @ drop 1 remaining" and "CHR ''/'' \<notin> set (drop 1 remaining)"
      by simp_all
    then have "\<exists>seg. CHR ''/'' \<notin> set seg \<and>
       (remaining = ''/'' @ ''/'' @ seg \<or> (''/'' = ''/'' \<and> remaining = ''/'' @ seg))"
      by blast
    with root show ?thesis by (simp add: successively_Cons)
  qed
qed

text \<open>
  Claim C1.  For every route table and every path, \<open>Get\<close> is the one-shot lookup of the
  specification: the truncations of the path are tried from the longest to the shortest,
  the first one that is a bucket key selects the only bucket searched, the matcher is
  given the full path, and its result is returned as it is, match or no match.  The
  truncations start with the path itself, get strictly shorter, are all prefixes of the
  path, and each is the one before it without its last \<open>/\<close>-separated segment (or \<open>/\<close>
  alone when only the leading slash is left).
\<close>

theorem Get_one_shot:
  "Get r path = Get_spec r path \<and>
   hd (truncations path) = path \<and>
   sorted_wrt (\<lambda>a b. length b < length a) (truncations path) \<and>
   (\<forall>t \<in> set (truncations path). HasPrefix path t) \<and>
   successively (\<lambda>a b. \<exists>seg. CHR ''/'' \<notin> set seg \<and>
       (a = b @ ''/'' @ seg \<or> (b = ''/'' \<and> a = ''/'' @ seg)))
     (truncations path)"
proof (intro conjI)
  show "Get r path = Get_spec r path"
    by (simp only: Get_def Get_spec_def Get_loop_find)
  show "hd (truncations path) = path"
    by (rule hd_truncations)
  show "sorted_wrt (\<lambda>a b. length b < length a) (truncations path)"
    by (rule truncations_decreasing)
  show "\<forall>t \<in> set (truncations path). HasPrefix path t"
    using truncations_bound by blast
  show "successively (\<lambda>a b. \<exists>seg. CHR ''/'' \<notin> set seg \<and>
       (a = b @ ''/'' @ seg \<or> (b = ''/'' \<and> a = ''/'' @ seg)))
     (truncations path)"
    by (rule truncations_step)
qed

theorem Get_one_shot_witness:
  "truncations ''/a/x/y'' = [''/a/x/y'', ''/a/x'', ''/a'', ''/''] \<and>
   ''/a'' \<in> set (truncations ''/a/x/y'') \<and>
   HasPrefix ''/a/x/y'' ''/a'' \<and>
   Get_spec (Add NewRoutes ''/a'' (Some ())) ''/a/x/y''
     = (Inr (None, None, False), Add NewRoutes ''/a'' (Some ())) \<and>
   Get (Add NewRoutes ''/a'' (Some ())) ''/a/x/y''
     = (Inr (None, None, False), Add NewRoutes ''/a'' (Some ()))"
proof -
  have t: "truncations ''/a/x/y'' = [''/a/x/y'', ''/a/x'', ''/a'', ''/'']"
    by (simp add: truncations.simps Let_def)
  have s: "Get_spec (Add NewRoutes ''/a'' (Some ())) ''/a/x/y''
     = (Inr (None, None, False), Add NewRoutes ''/a'' (Some ()))"
    unfolding Get_spec_def t
    by (simp add: Add_def NewRoutes_def bucket_def HasPrefix_def TrimPrefix_def
        raw_tokens_def cleanArray_def Let_def)
  from t s Get_one_shot [of "Add NewRoutes ''/a'' (Some ())" "''/a/x/y''"]
  show ?thesis by simp
qed

section \<open>Matching within a bucket\<close>

text \<open>The segment loop, started at raw index \<open>i\<close> with the captures so far.\<close>

lemma upt_0_Suc_shift: "[0 ..< Suc n] = 0 # map Suc [0 ..< n]"
  by (simp add: upt_conv_Cons map_Suc_upt del: upt_Suc)

lemma match_params_spec:
  "i + length ps \<le> length params \<Longrightarrow>
   match_params params i ps m =
     (if \<forall>j < length ps. fixed (ps ! j) \<longrightarrow> params ! (i + j) = name (ps ! j)
      then Inr (Some (fold (\<lambda>j m. if fixed (ps ! j) then m
                                     else m(name (ps ! j) \<mapsto> params ! (i + j)))
                       [0 ..< length ps] m))
      else Inr None)"
proof (induction ps arbitrary: i m)
  case Nil
  show ?case by simp
next
  case (Cons p ps)
  from Cons.prems have i: "i < length params" and le: "Suc i + length ps \<le> length params"
    by simp_all
  have all: "(\<forall>j < length (p # ps). fixed ((p # ps) ! j) \<longrightarrow> params ! (i + j) = name ((p # ps) ! j))
      \<longleftrightarrow> (fixed p \<longrightarrow> params ! i = name p) \<and>
          (\<forall>j < length ps. fixed (ps ! j) \<longrightarrow> params ! (Suc i + j) = name (ps ! j))"
    by (auto simp: less_Suc_eq_0_disj)
  have fold: "\<And>m. fold (\<lambda>j m. if fixed ((p # ps) ! j) then m
                     else m(name ((p # ps) ! j) \<mapsto> params ! (i + j))) [0 ..< length (p # ps)] m
      = fold (\<lambda>j m. if fixed (ps ! j) then m else m(name (ps ! j) \<mapsto> params ! (Suc i + j)))
          [0 ..< length ps] (if fixed p then m else m(name p \<mapsto> params ! i))"
    by (simp only: length_Cons upt_0_Suc_shift fold_simps fold_map) (simp add: comp_def cong: if_cong)
  show ?case
    unfolding all fold
    using i Cons.IH [OF le] by auto
qed

lemma match_params_satisfies:
  "length (cleanArray (raw_tokens path e)) = length (partNames e) \<Longrightarrow>
   match_params (raw_tokens path e) 0 (partNames e) Map.empty =
     (if satisfies path e then Inr (Some (captures path e)) else Inr None)"
proof -
  assume len: "length (cleanArray (raw_tokens path e)) = length (partNames e)"
  then have "0 + length (partNames e) \<le> length (raw_tokens path e)"
    using length_cleanArray [of "raw_tokens path e"] by simp
  from match_params_spec [OF this, of Map.empty] len show ?thesis
    by (simp add: satisfies_def captures_def cong: if_cong)
qed

lemma matchRoutes_Cons:
  "matchRoutes path (e # rs) =
     (if satisfies path e then Inr (function' e, Some (captures path e), True)
      else matchRoutes path rs)"
proof (cases "length (cleanArray (raw_tokens path e)) = length (partNames e)")
  case True
  then show ?thesis by (simp add: match_params_satisfies)
next
  case False
  then show ?thesis by (simp add: satisfies_def)
qed

lemma matchRoutes_find:
  "matchRoutes path rs =
     (case List.find (satisfies path) rs of
        None \<Rightarrow> Inr (None, None, False)
      | Some e \<Rightarrow> Inr (function' e, Some (captures path e), True))"
  by (induction rs) (simp_all add: matchRoutes_Cons del: matchRoutes.simps(2))

lemma matchRoutes_append:
  "matchRoutes path (rs @ rs') =
     (if \<exists>e \<in> set rs. satisfies path e then matchRoutes path rs else matchRoutes path rs')"
  by (induction rs) (simp_all add: matchRoutes_Cons del: matchRoutes.simps(2))

lemma matchRoutes_none:
  "matchRoutes path rs = Inr (None, None, False) \<longleftrightarrow> (\<forall>e \<in> set rs. \<not> satisfies path e)"
  by (induction rs) (simp_all add: matchRoutes_Cons del: matchRoutes.simps(2))

lemma find_key_Some:
  "List.find (\<lambda>k. roots r k \<noteq> None) ks = Some k \<Longrightarrow> roots r k = Some (bucket r k)"
  by (auto simp: find_Some_iff bucket_def)

lemma bucket_entries: "roots r k \<noteq> None \<Longrightarrow> set (bucket r k) \<subseteq> entries r"
  unfolding bucket_def entries_def by (cases "roots r k") auto

lemma matchRoutes_cases:
  obtains (miss) "matchRoutes path rs = Inr (None, None, False)"
      "\<forall>e \<in> set rs. \<not> satisfies path e"
  | (hit) e where "matchRoutes path rs = Inr (function' e, Some (captures path e), True)"
      "e \<in> set rs" "satisfies path e"
proof (cases "List.find (satisfies path) rs")
  case None
  then have "matchRoutes path rs = Inr (None, None, False)"
    by (simp add: matchRoutes_find)
  moreover from None have "\<forall>e \<in> set rs. \<not> satisfies path e"
    by (simp add: find_None_iff)
  ultimately show ?thesis by (rule miss)
next
  case (Some e)
  then have "e \<in> set rs" "satisfies path e"
    by (auto simp: find_Some_iff)
  with Some show ?thesis
    using hit by (simp add: matchRoutes_find)
qed

section \<open>When resolution fails\<close>

text \<open>
  Claim C3, as stated, fails: a registered entry may satisfy a path that \<open>Get\<close> does not
  find.  With \<open>/a/:x/:y\<close> and \<open>/a/b\<close> registered, the path \<open>/a/b/c\<close> is first cut to the
  key \<open>/a/b\<close>, whose only entry has no segment, and the lookup stops there with no match,
  although the entry of \<open>/a/:x/:y\<close> in the bucket \<open>/a\<close> satisfies the path.
\<close>

theorem found_iff_counterexample:
  "fst (Get (Add (Add NewRoutes ''/a/:x/:y'' (Some ())) ''/a/b'' (Some ())) ''/a/b/c'')
     = Inr (None, None, False) \<and>
   \<lparr>prefix = ''/a'', partNames = [\<lparr>name = ''x'', fixed = False\<rparr>, \<lparr>name = ''y'', fixed = False\<rparr>],
     function' = Some ()\<rparr>
     \<in> entries (Add (Add NewRoutes ''/a/:x/:y'' (Some ())) ''/a/b'' (Some ())) \<and>
   satisfies ''/a/b/c''
     \<lparr>prefix = ''/a'', partNames = [\<lparr>name = ''x'', fixed = False\<rparr>, \<lparr>name = ''y'', fixed = False\<rparr>],
      function' = Some ()\<rparr>"
proof (intro conjI)
  show "fst (Get (Add (Add NewRoutes ''/a/:x/:y'' (Some ())) ''/a/b'' (Some ())) ''/a/b/c'')
     = Inr (None, None, False)"
    by (simp add: eval_defs)
  have "roots (Add (Add NewRoutes ''/a/:x/:y'' (Some ())) ''/a/b'' (Some ())) ''/a''
     = Some [\<lparr>prefix = ''/a'', partNames = [\<lparr>name = ''x'', fixed = False\<rparr>, \<lparr>name = ''y'', fixed = False\<rparr>],
     function' = Some ()\<rparr>]"
    by (simp add: eval_defs)
  then show "\<lparr>prefix = ''/a'', partNames = [\<lparr>name = ''x'', fixed = False\<rparr>, \<lparr>name = ''y'', fixed = False\<rparr>],
     function' = Some ()\<rparr>
     \<in> entries (Add (Add NewRoutes ''/a/:x/:y'' (Some ())) ''/a/b'' (Some ()))"
    unfolding entries_def by (intro CollectI exI [of _ "''/a''"]) simp
  show "satisfies ''/a/b/c''
     \<lparr>prefix = ''/a'', partNames = [\<lparr>name = ''x'', fixed = False\<rparr>, \<lparr>name = ''y'', fixed = False\<rparr>],
      function' = Some ()\<rparr>"
    by (simp add: satisfies_def eval_defs less_Suc_eq)
qed

text \<open>
  Claim C3, amended.  \<open>Get\<close> returns found = false exactly when no truncation of the path
  is a bucket key, or no entry in the bucket of the first (longest) truncation that is a
  key satisfies the path.  Whenever found is true, some registered entry satisfies the
  path; whenever it is false, handler and parameter map are \<open>nil\<close>.  On the empty route
  table \<open>Get\<close> returns \<open>(nil, nil, false)\<close> for every path.
\<close>

theorem Get_found_iff:
  "(\<exists>h m found. fst (Get r path) = Inr (h, m, found) \<and>
      (found = False \<longleftrightarrow>
         (case List.find (\<lambda>k. roots r k \<noteq> None) (truncations path) of
            None \<Rightarrow> True
          | Some k \<Rightarrow> \<forall>e \<in> set (bucket r k). \<not> satisfies path e)) \<and>
      (found \<longrightarrow> (\<exists>e \<in> entries r. satisfies path e)) \<and>
      (\<not> found \<longrightarrow> h = None \<and> m = None)) \<and>
   fst (Get NewRoutes path) = Inr (None, None, False)"
proof
  show "\<exists>h m found. fst (Get r path) = Inr (h, m, found) \<and>
      (found = False \<longleftrightarrow>
         (case List.find (\<lambda>k. roots r k \<noteq> None) (truncations path) of
            None \<Rightarrow> True
          | Some k \<Rightarrow> \<forall>e \<in> set (bucket r k). \<not> satisfies path e)) \<and>
      (found \<longrightarrow> (\<exists>e \<in> entries r. satisfies path e)) \<and>
      (\<not> found \<longrightarrow> h = None \<and> m = None)"
  proof (cases "List.find (\<lambda>k. roots r k \<noteq> None) (truncations path)")
    case None
    then have "fst (Get r path) = Inr (None, None, False)"
      by (simp add: Get_def Get_loop_find)
    with None show ?thesis by auto
  next
    case (Some k)
    then have g: "fst (Get r path) = matchRoutes path (bucket r k)"
      by (simp add: Get_def Get_loop_find)
    from Some have "roots r k \<noteq> None"
      using find_key_Some [of r "truncations path" k] by simp
    then have sub: "set (bucket r k) \<subseteq> entries r"
      by (rule bucket_entries)
    show ?thesis
    proof (cases rule: matchRoutes_cases [of path "bucket r k"])
      case miss
      with g Some show ?thesis by auto
    next
      case (hit e)
      with g Some sub show ?thesis by auto
    qed
  qed
next
  have "List.find (\<lambda>k. roots (NewRoutes :: 'b Routes) k \<noteq> None) (truncations path) = None"
    by (simp add: find_None_iff NewRoutes_def)
  then show "fst (Get (NewRoutes :: 'b Routes) path) = Inr (None, None, False)"
    by (simp add: Get_def Get_loop_find)
qed

theorem Get_found_iff_witness:
  "fst (Get (Add NewRoutes ''/users/:id'' (Some ())) ''/users/42'')
     = Inr (Some (), Some [''id'' \<mapsto> ''42''], True) \<and>
   (\<exists>e \<in> entries (Add NewRoutes ''/users/:id'' (Some ())). satisfies ''/users/42'' e)"
proof -
  have "fst (Get (Add NewRoutes ''/users/:id'' (Some ())) ''/users/42'')
     = Inr (Some (), Some [''id'' \<mapsto> ''42''], True)"
    by (simp add: eval_defs)
  with Get_found_iff [of "Add NewRoutes ''/users/:id'' (Some ())" "''/users/42''"]
  show ?thesis by auto
qed

section \<open>Registration as the specification words it\<close>

text \<open>The token loop of \<open>Add\<close>, from any state of its three variables.\<close>

lemma Add_loop_found:
  "Add_loop ps rootParts varParts True = (rootParts, varParts @ map segment ps)"
  by (induction ps arbitrary: varParts) (simp_all add: segment_def is_param_def)

lemma Add_loop_spec:
  "Add_loop ps rootParts varParts False =
     (rootParts @ takeWhile (\<lambda>p. \<not> is_param p) ps,
      varParts @ map segment (dropWhile (\<lambda>p. \<not> is_param p) ps))"
proof (induction ps arbitrary: rootParts)
  case Nil
  show ?case by simp
next
  case (Cons p ps)
  show ?case
  proof (cases "is_param p")
    case True
    then show ?thesis
      using Add_loop_found [of ps rootParts "varParts @ [segment p]"]
      by (simp add: segment_def is_param_def)
  next
    case False
    then show ?thesis
      using Cons.IH [of "rootParts @ [p]"] by (simp add: is_param_def)
  qed
qed

lemma Add_spec:
  "Add r pattern f =
     r\<lparr>roots := (roots r)(static_prefix pattern \<mapsto>
          bucket r (static_prefix pattern) @ [entry_of pattern f])\<rparr>"
  by (simp add: Add_def Add_loop_spec static_prefix_def segments_def entry_of_def Let_def)

lemma bucket_Add:
  "bucket (Add r pattern f) k =
     (if k = static_prefix pattern then bucket r k @ [entry_of pattern f] else bucket r k)"
  by (simp add: Add_spec bucket_def)

lemma roots_Add_other:
  "k \<noteq> static_prefix pattern \<Longrightarrow> roots (Add r pattern f) k = roots r k"
  by (simp add: Add_spec)

lemma Get_unchanged: "snd (Get r path) = r"
  by (simp add: Get_def Get_loop_find split: option.split)

section \<open>What registration and resolution change\<close>

text \<open>
  Claim C8.  \<open>Add\<close> stores, under the static prefix of the pattern, the old bucket followed
  by exactly one new entry made of that prefix, the segments of the pattern and the
  handler (a bucket that did not exist is created); every other key keeps its value, every
  entry already in a bucket stays where it was, and only the bucket of the prefix grows, by
  one.  \<open>Get\<close> leaves the route table as it found it, for every path.
\<close>

theorem Add_Get_frame:
  "roots (Add r pattern f) (static_prefix pattern)
     = Some (bucket r (static_prefix pattern) @
         [\<lparr>prefix = static_prefix pattern, partNames = segments pattern, function' = f\<rparr>]) \<and>
   (\<forall>k. k \<noteq> static_prefix pattern \<longrightarrow> roots (Add r pattern f) k = roots r k) \<and>
   (\<forall>k. \<forall>i < length (bucket r k). bucket (Add r pattern f) k ! i = bucket r k ! i) \<and>
   (\<forall>k. length (bucket (Add r pattern f) k)
      = (if k = static_prefix pattern then Suc (length (bucket r k)) else length (bucket r k))) \<and>
   snd (Get r path) = r"
proof (intro conjI allI impI)
  show "roots (Add r pattern f) (static_prefix pattern)
     = Some (bucket r (static_prefix pattern) @
         [\<lparr>prefix = static_prefix pattern, partNames = segments pattern, function' = f\<rparr>])"
    by (simp add: Add_spec entry_of_def)
next
  fix k assume "k \<noteq> static_prefix pattern"
  then show "roots (Add r pattern f) k = roots r k" by (rule roots_Add_other)
next
  fix k i assume "i < length (bucket r k)"
  then show "bucket (Add r pattern f) k ! i = bucket r k ! i"
    by (auto simp: bucket_Add nth_append)
next
  fix k
  show "length (bucket (Add r pattern f) k)
      = (if k = static_prefix pattern then Suc (length (bucket r k)) else length (bucket r k))"
    by (simp add: bucket_Add)
next
  show "snd (Get r path) = r" by (rule Get_unchanged)
qed

theorem Add_Get_frame_witness:
  "''/a'' \<noteq> static_prefix ''/users/:id'' \<and>
   roots (Add (Add NewRoutes ''/a'' (Some ())) ''/users/:id'' (Some ())) ''/a''
     = roots (Add NewRoutes ''/a'' (Some ())) ''/a'' \<and>
   0 < length (bucket (Add NewRoutes ''/a'' (Some ())) ''/a'') \<and>
   bucket (Add (Add NewRoutes ''/a'' (Some ())) ''/users/:id'' (Some ())) ''/a'' ! 0
     = bucket (Add NewRoutes ''/a'' (Some ())) ''/a'' ! 0 \<and>
   snd (Get (Add NewRoutes ''/a'' (Some ())) ''/a/b'') = Add NewRoutes ''/a'' (Some ())"
proof -
  have k: "''/a'' \<noteq> static_prefix ''/users/:id''"
    by (simp add: static_prefix_def is_param_def HasPrefix_def)
  have n: "0 < length (bucket (Add NewRoutes ''/a'' (Some ())) ''/a'')"
    by (simp add: eval_defs)
  from k n Add_Get_frame [of "Add NewRoutes ''/a'' (Some ())" "''/users/:id''" "Some ()" "''/a/b''"]
  show ?thesis by blast
qed

section \<open>Fixed segments\<close>

text \<open>
  Claim C6.  If an entry with a fixed segment at index \<open>i\<close> matches, the raw token at index
  \<open>i\<close> equals the literal text of the segment; if some fixed segment differs from the raw
  token at its index, the entry is abandoned and the result is that of the rest of the
  bucket.  After registering \<open>/a/:b/c\<close> on the empty table, \<open>/a/5/c\<close> resolves to the
  handler with \<open>b\<close> bound to \<open>5\<close>, and \<open>/a/5/d\<close> is not found.
\<close>

theorem fixed_segment_enforced:
  "(\<forall>i < length (partNames e). fixed (partNames e ! i) \<longrightarrow>
      (\<exists>h m. matchRoutes path [e] = Inr (h, m, True)) \<longrightarrow>
      raw_tokens path e ! i = name (partNames e ! i)) \<and>
   ((\<exists>i < length (partNames e). fixed (partNames e ! i) \<and>
        raw_tokens path e ! i \<noteq> name (partNames e ! i)) \<longrightarrow>
      matchRoutes path (e # rs) = matchRoutes path rs) \<and>
   fst (Get (Add NewRoutes ''/a/:b/c'' f) ''/a/5/c'') = Inr (f, Some [''b'' \<mapsto> ''5''], True) \<and>
   fst (Get (Add NewRoutes ''/a/:b/c'' f) ''/a/5/d'') = Inr (None, None, False)"
proof (intro conjI allI impI)
  fix i
  assume i: "i < length (partNames e)" and f: "fixed (partNames e ! i)"
    and "\<exists>h m. matchRoutes path [e] = Inr (h, m, True)"
  then have "satisfies path e"
    by (auto simp: matchRoutes_Cons simp del: matchRoutes.simps(2) split: if_splits)
  with i f show "raw_tokens path e ! i = name (partNames e ! i)"
    by (simp add: satisfies_def)
next
  assume "\<exists>i < length (partNames e). fixed (partNames e ! i) \<and>
        raw_tokens path e ! i \<noteq> name (partNames e ! i)"
  then have "\<not> satisfies path e"
    by (auto simp: satisfies_def)
  then show "matchRoutes path (e # rs) = matchRoutes path rs"
    by (simp add: matchRoutes_Cons del: matchRoutes.simps(2))
next
  show "fst (Get (Add NewRoutes ''/a/:b/c'' f) ''/a/5/c'') = Inr (f, Some [''b'' \<mapsto> ''5''], True)"
    by (simp add: eval_defs)
next
  show "fst (Get (Add NewRoutes ''/a/:b/c'' f) ''/a/5/d'') = Inr (None, None, False)"
    by (simp add: eval_defs)
qed

theorem fixed_segment_enforced_witness:
  "fixed ([\<lparr>name = ''b'', fixed = False\<rparr>, \<lparr>name = ''c'', fixed = True\<rparr>] ! 1) \<and>
   raw_tokens ''/a/5/d''
     \<lparr>prefix = ''/a'', partNames = [\<lparr>name = ''b'', fixed = False\<rparr>, \<lparr>name = ''c'', fixed = True\<rparr>],
      function' = Some (1 :: nat)\<rparr> ! 1 = ''d'' \<and>
   matchRoutes ''/a/5/d''
     [\<lparr>prefix = ''/a'', partNames = [\<lparr>name = ''b'', fixed = False\<rparr>, \<lparr>name = ''c'', fixed = True\<rparr>],
       function' = Some (1 :: nat)\<rparr>,
      \<lparr>prefix = ''/a'', partNames = [\<lparr>name = ''x'', fixed = False\<rparr>, \<lparr>name = ''y'', fixed = False\<rparr>],
       function' = Some 2\<rparr>]
    = matchRoutes ''/a/5/d''
     [\<lparr>prefix = ''/a'', partNames = [\<lparr>name = ''x'', fixed = False\<rparr>, \<lparr>name = ''y'', fixed = False\<rparr>],
       function' = Some 2\<rparr>]"
proof -
  let ?e = "\<lparr>prefix = ''/a'', partNames = [\<lparr>name = ''b'', fixed = False\<rparr>, \<lparr>name = ''c'', fixed = True\<rparr>],
      function' = Some (1 :: nat)\<rparr>"
  have raw: "raw_tokens ''/a/5/d'' ?e = [''5'', ''d'']"
    by (simp add: raw_tokens_def HasPrefix_def TrimPrefix_def)
  have "\<exists>i < length (partNames ?e). fixed (partNames ?e ! i) \<and>
        raw_tokens ''/a/5/d'' ?e ! i \<noteq> name (partNames ?e ! i)"
    unfolding raw by (intro exI [of _ 1]) simp
  with raw fixed_segment_enforced [of ?e "''/a/5/d''"
      "[\<lparr>prefix = ''/a'', partNames = [\<lparr>name = ''x'', fixed = False\<rparr>, \<lparr>name = ''y'', fixed = False\<rparr>],
       function' = Some 2\<rparr>]"]
  show ?thesis by simp
qed

section \<open>Order of the entries of a bucket\<close>

text \<open>The first satisfying entry decides, and the bucket of the first key is searched.\<close>

lemma matchRoutes_first:
  "\<forall>x \<in> set xs. \<not> satisfies path x \<Longrightarrow> satisfies path e \<Longrightarrow>
     matchRoutes path (xs @ e # ys) = Inr (function' e, Some (captures path e), True)"
  by (simp add: matchRoutes_append matchRoutes_Cons del: matchRoutes.simps(2))

lemma Get_first_key:
  "List.find (\<lambda>k. roots r k \<noteq> None) (truncations path) = Some k \<Longrightarrow>
     fst (Get r path) = matchRoutes path (bucket r k)"
  by (simp add: Get_def Get_loop_find)

text \<open>
  Claim C7.  \<open>matchRoutes\<close> returns the first entry of the bucket, in list order, that
  satisfies the path (equal counts of non-empty tokens and segments, every fixed segment
  equal to the raw token at its index), whatever follows it; \<open>Add\<close> puts the new entry
  behind the entries already in the bucket, so list order is registration order.  Hence,
  when two patterns with the same static prefix are registered one after the other, the
  lookup reaches their bucket, no older entry of the bucket satisfies the path and both new
  entries do, the handler registered first is returned.  For instance \<open>/u/:a\<close> registered
  before \<open>/u/:b\<close> wins on \<open>/u/1\<close>.
\<close>

theorem first_match_wins:
  "matchRoutes path rs =
     (case List.find (satisfies path) rs of
        None \<Rightarrow> Inr (None, None, False)
      | Some e \<Rightarrow> Inr (function' e, Some (captures path e), True)) \<and>
   ((\<forall>x \<in> set xs. \<not> satisfies path x) \<longrightarrow> satisfies path e \<longrightarrow>
      matchRoutes path (xs @ e # ys) = Inr (function' e, Some (captures path e), True)) \<and>
   bucket (Add r pattern f) (static_prefix pattern)
     = bucket r (static_prefix pattern) @ [entry_of pattern f] \<and>
   (static_prefix p1 = static_prefix p2 \<longrightarrow>
    List.find (\<lambda>k. roots (Add (Add r p1 h1) p2 h2) k \<noteq> None) (truncations path)
      = Some (static_prefix p1) \<longrightarrow>
    (\<forall>x \<in> set (bucket r (static_prefix p1)). \<not> satisfies path x) \<longrightarrow>
    satisfies path (entry_of p1 h1) \<longrightarrow> satisfies path (entry_of p2 h2) \<longrightarrow>
    fst (Get (Add (Add r p1 h1) p2 h2) path)
      = Inr (h1, Some (captures path (entry_of p1 h1)), True)) \<and>
   fst (Get (Add (Add NewRoutes ''/u/:a'' h1) ''/u/:b'' h2) ''/u/1'')
     = Inr (h1, Some [''a'' \<mapsto> ''1''], True)"
proof (intro conjI impI)
  show "matchRoutes path rs =
     (case List.find (satisfies path) rs of
        None \<Rightarrow> Inr (None, None, False)
      | Some e \<Rightarrow> Inr (function' e, Some (captures path e), True))"
    by (rule matchRoutes_find)
next
  assume "\<forall>x \<in> set xs. \<not> satisfies path x" and "satisfies path e"
  then show "matchRoutes path (xs @ e # ys) = Inr (function' e, Some (captures path e), True)"
    by (rule matchRoutes_first)
next
  show "bucket (Add r pattern f) (static_prefix pattern)
     = bucket r (static_prefix pattern) @ [entry_of pattern f]"
    by (simp add: bucket_Add)
next
  assume same: "static_prefix p1 = static_prefix p2"
    and key: "List.find (\<lambda>k. roots (Add (Add r p1 h1) p2 h2) k \<noteq> None) (truncations path)
      = Some (static_prefix p1)"
    and none: "\<forall>x \<in> set (bucket r (static_prefix p1)). \<not> satisfies path x"
    and sat: "satisfies path (entry_of p1 h1)"
  have "bucket (Add (Add r p1 h1) p2 h2) (static_prefix p1)
      = bucket r (static_prefix p1) @ entry_of p1 h1 # [entry_of p2 h2]"
    using same by (simp add: bucket_Add)
  then have "fst (Get (Add (Add r p1 h1) p2 h2) path)
      = matchRoutes path (bucket r (static_prefix p1) @ entry_of p1 h1 # [entry_of p2 h2])"
    using Get_first_key [OF key] by simp
  also have "\<dots> = Inr (function' (entry_of p1 h1), Some (captures path (entry_of p1 h1)), True)"
    using none sat by (rule matchRoutes_first)
  finally show "fst (Get (Add (Add r p1 h1) p2 h2) path)
      = Inr (h1, Some (captures path (entry_of p1 h1)), True)"
    by (simp add: entry_of_def)
next
  show "fst (Get (Add (Add NewRoutes ''/u/:a'' h1) ''/u/:b'' h2) ''/u/1'')
     = Inr (h1, Some [''a'' \<mapsto> ''1''], True)"
    by (simp add: eval_defs)
qed

theorem first_match_wins_witness:
  "static_prefix ''/u/:a'' = static_prefix ''/u/:b'' \<and>
   satisfies ''/u/1'' (entry_of ''/u/:a'' (Some ''first'')) \<and>
   satisfies ''/u/1'' (entry_of ''/u/:b'' (Some ''second'')) \<and>
   fst (Get (Add (Add NewRoutes ''/u/:a'' (Some ''first'')) ''/u/:b'' (Some ''second'')) ''/u/1'')
     = Inr (Some ''first'', Some (captures ''/u/1'' (entry_of ''/u/:a'' (Some ''first''))), True)"
proof -
  have p: "static_prefix ''/u/:a'' = ''/u''" "static_prefix ''/u/:b'' = ''/u''"
    by (simp_all add: static_prefix_def is_param_def HasPrefix_def)
  have s: "satisfies ''/u/1'' (entry_of ''/u/:a'' (Some ''first''))"
      "satisfies ''/u/1'' (entry_of ''/u/:b'' (Some ''second''))"
    by (simp_all add: satisfies_def entry_of_def p segments_def segment_def is_param_def
        raw_tokens_def cleanArray_def HasPrefix_def TrimPrefix_def)
  have k: "List.find (\<lambda>k. roots (Add (Add NewRoutes ''/u/:a'' (Some ''first''))
        ''/u/:b'' (Some ''second'')) k \<noteq> None)
      (truncations ''/u/1'') = Some (static_prefix ''/u/:a'')"
    by (simp add: p truncations.simps Add_def NewRoutes_def bucket_def HasPrefix_def Let_def)
  have e: "\<forall>x \<in> set (bucket (NewRoutes :: string Routes) (static_prefix ''/u/:a'')).
      \<not> satisfies ''/u/1'' x"
    by (simp add: bucket_def NewRoutes_def)
  from first_match_wins [where r = "NewRoutes :: string Routes" and path = "''/u/1''"
      and ?p1.0 = "''/u/:a''" and ?p2.0 = "''/u/:b''" and ?h1.0 = "Some ''first''"
      and ?h2.0 = "Some ''second''"]
  have "static_prefix ''/u/:a'' = static_prefix ''/u/:b'' \<longrightarrow>
    List.find (\<lambda>k. roots (Add (Add NewRoutes ''/u/:a'' (Some ''first''))
        ''/u/:b'' (Some ''second'')) k \<noteq> None) (truncations ''/u/1'')
      = Some (static_prefix ''/u/:a'') \<longrightarrow>
    (\<forall>x \<in> set (bucket (NewRoutes :: string Routes) (static_prefix ''/u/:a'')).
      \<not> satisfies ''/u/1'' x) \<longrightarrow>
    satisfies ''/u/1'' (entry_of ''/u/:a'' (Some ''first'')) \<longrightarrow>
    satisfies ''/u/1'' (entry_of ''/u/:b'' (Some ''second'')) \<longrightarrow>
    fst (Get (Add (Add NewRoutes ''/u/:a'' (Some ''first'')) ''/u/:b'' (Some ''second'')) ''/u/1'')
      = Inr (Some ''first'', Some (captures ''/u/1'' (entry_of ''/u/:a'' (Some ''first''))), True)"
    by blast
  with p s k e show ?thesis by simp
qed

section \<open>Round trip of a pattern without parameters\<close>

text \<open>A pattern without parameters is its own static prefix and has no segments.\<close>

lemma no_params_takeWhile:
  "no_params p \<Longrightarrow> takeWhile (\<lambda>t. \<not> is_param t) (Split p CHR ''/'') = Split p CHR ''/''"
  by (simp add: no_params_def)

lemma no_params_prefix: "no_params p \<Longrightarrow> static_prefix p = p"
  by (simp add: static_prefix_def no_params_takeWhile Join_Split)

lemma no_params_segments: "no_params p \<Longrightarrow> segments p = []"
  by (simp add: segments_def no_params_def)

lemma segments_Nil_iff: "segments p = [] \<longleftrightarrow> no_params p"
  by (auto simp: segments_def no_params_def)

text \<open>Behind its own prefix a path has a single, empty raw token.\<close>

lemma raw_tokens_own_prefix: "prefix e = path \<Longrightarrow> raw_tokens path e = [[]]"
  by (simp add: raw_tokens_def TrimPrefix_def HasPrefix_def)

lemma satisfies_own_prefix: "prefix e = path \<Longrightarrow> satisfies path e \<longleftrightarrow> partNames e = []"
  by (auto simp: satisfies_def raw_tokens_own_prefix cleanArray_def)

lemma captures_no_segments: "partNames e = [] \<Longrightarrow> captures path e = Map.empty"
  by (simp add: captures_def)

lemma Get_after_Add:
  "no_params p \<Longrightarrow>
     fst (Get (Add r p h) p) = matchRoutes p (bucket r p @ [entry_of p h])"
proof -
  assume np: "no_params p"
  have "roots (Add r p h) p \<noteq> None"
    using np by (simp add: Add_spec no_params_prefix)
  then have "List.find (\<lambda>k. roots (Add r p h) k \<noteq> None) (truncations p) = Some p"
    by (subst truncations.simps) simp
  then have "fst (Get (Add r p h) p) = matchRoutes p (bucket (Add r p h) p)"
    by (rule Get_first_key)
  with np show ?thesis by (simp add: bucket_Add no_params_prefix)
qed

lemma entry_of_no_params:
  "no_params p \<Longrightarrow> entry_of p h = \<lparr>prefix = p, partNames = [], function' = h\<rparr>"
  by (simp add: entry_of_def no_params_prefix no_params_segments)

text \<open>Every entry of a built table comes from a registration with the bucket's prefix.\<close>

lemma build_snoc: "build (regs @ [(p, h)]) = Add (build regs) p h"
  by (simp add: build_def)

lemma build_bucket:
  "e \<in> set (bucket (build regs) k) \<Longrightarrow>
     \<exists>p h. (p, h) \<in> set regs \<and> e = entry_of p h \<and> static_prefix p = k"
proof (induction regs arbitrary: e k rule: rev_induct)
  case Nil
  then show ?case by (simp add: build_def NewRoutes_def bucket_def)
next
  case (snoc x regs)
  obtain p h where x: "x = (p, h)" by (cases x)
  from snoc.prems have "e \<in> set (bucket (build regs) k) \<or> (k = static_prefix p \<and> e = entry_of p h)"
    by (auto simp: x build_snoc bucket_Add split: if_splits)
  then show ?case
  proof
    assume "e \<in> set (bucket (build regs) k)"
    from snoc.IH [OF this] show ?thesis by auto
  next
    assume "k = static_prefix p \<and> e = entry_of p h"
    then show ?thesis by (auto simp: x)
  qed
qed

lemma build_fresh:
  assumes "no_params p" and "p \<notin> fst ` set regs"
  shows "\<forall>e \<in> set (bucket (build regs) p). \<not> satisfies p e"
proof
  fix e assume "e \<in> set (bucket (build regs) p)"
  from build_bucket [OF this] obtain p' h' where
    reg: "(p', h') \<in> set regs" and e: "e = entry_of p' h'" and k: "static_prefix p' = p"
    by blast
  show "\<not> satisfies p e"
  proof
    assume "satisfies p e"
    moreover have "prefix e = p" using e k by (simp add: entry_of_def)
    ultimately have "partNames e = []" by (simp add: satisfies_own_prefix)
    then have "no_params p'" using e by (simp add: entry_of_def segments_Nil_iff)
    then have "p' = p" using k by (simp add: no_params_prefix)
    with reg assms(2) show False by force
  qed
qed

text \<open>
  Claim C4, as stated, fails on a table that already holds an entry for the same pattern:
  the older entry stands first in the bucket and its handler is returned.
\<close>

theorem round_trip_counterexample:
  "no_params ''/a'' \<and>
   fst (Get (Add (Add NewRoutes ''/a'' (Some ''first'')) ''/a'' (Some ''second'')) ''/a'')
     = Inr (Some ''first'', Some Map.empty, True) \<and>
   fst (Get (Add (Add NewRoutes ''/a'' (Some ''first'')) ''/a'' (Some ''second'')) ''/a'')
     \<noteq> Inr (Some ''second'', Some Map.empty, True)"
  by (simp add: no_params_def is_param_def eval_defs)

text \<open>
  Claim C4, amended.  For every pattern \<open>p\<close> without a parameter token and every handler
  \<open>h\<close>, \<open>Add(p, h)\<close> on a table in which no entry already stored under the key \<open>p\<close>
  matches \<open>p\<close>, followed by \<open>Get(p)\<close>, returns \<open>h\<close>, the empty parameter map and
  found = true.  This covers every table built by registrations among which \<open>p\<close> does not
  occur.  On any table at all, \<open>Get(p)\<close> after \<open>Add(p, h)\<close> reports found = true.
\<close>

theorem round_trip:
  "(no_params p \<longrightarrow> matchRoutes p (bucket r p) = Inr (None, None, False) \<longrightarrow>
      fst (Get (Add r p h) p) = Inr (h, Some Map.empty, True)) \<and>
   (no_params p \<longrightarrow> p \<notin> fst ` set regs \<longrightarrow>
      fst (Get (Add (build regs) p h) p) = Inr (h, Some Map.empty, True)) \<and>
   (no_params p \<longrightarrow> (\<exists>h' m. fst (Get (Add r p h) p) = Inr (h', m, True)))"
proof (intro conjI impI)
  assume np: "no_params p" and miss: "matchRoutes p (bucket r p) = Inr (None, None, False)"
  from miss have none: "\<forall>e \<in> set (bucket r p). \<not> satisfies p e"
    by (simp add: matchRoutes_none)
  have sat: "satisfies p (entry_of p h)"
    using np by (simp add: entry_of_no_params satisfies_own_prefix)
  have "fst (Get (Add r p h) p) = matchRoutes p (bucket r p @ entry_of p h # [])"
    using np by (simp add: Get_after_Add)
  also have "\<dots> = Inr (function' (entry_of p h), Some (captures p (entry_of p h)), True)"
    using none sat by (rule matchRoutes_first)
  finally show "fst (Get (Add r p h) p) = Inr (h, Some Map.empty, True)"
    using np by (simp add: entry_of_no_params captures_no_segments)
next
  assume np: "no_params p" and fresh: "p \<notin> fst ` set regs"
  have none: "\<forall>e \<in> set (bucket (build regs) p). \<not> satisfies p e"
    using np fresh by (rule build_fresh)
  have sat: "satisfies p (entry_of p h)"
    using np by (simp add: entry_of_no_params satisfies_own_prefix)
  have "fst (Get (Add (build regs) p h) p)
      = matchRoutes p (bucket (build regs) p @ entry_of p h # [])"
    using np by (simp add: Get_after_Add)
  also have "\<dots> = Inr (function' (entry_of p h), Some (captures p (entry_of p h)), True)"
    using none sat by (rule matchRoutes_first)
  finally show "fst (Get (Add (build regs) p h) p) = Inr (h, Some Map.empty, True)"
    using np by (simp add: entry_of_no_params captures_no_segments)
next
  assume np: "no_params p"
  have sat: "satisfies p (entry_of p h)"
    using np by (simp add: entry_of_no_params satisfies_own_prefix)
  have g: "fst (Get (Add r p h) p) = matchRoutes p (bucket r p @ [entry_of p h])"
    using np by (rule Get_after_Add)
  show "\<exists>h' m. fst (Get (Add r p h) p) = Inr (h', m, True)"
  proof (cases rule: matchRoutes_cases [of p "bucket r p @ [entry_of p h]"])
    case miss
    with sat show ?thesis by simp
  next
    case (hit e)
    with g show ?thesis by simp
  qed
qed

theorem round_trip_witness:
  "no_params ''/a'' \<and>
   ''/a'' \<notin> fst ` set [(''/users/:id'', Some ''u''), (''/a/b'', Some ''ab'')] \<and>
   matchRoutes ''/a'' (bucket (build [(''/users/:id'', Some ''u''), (''/a/b'', Some ''ab'')]) ''/a'')
     = Inr (None, None, False) \<and>
   fst (Get (Add (build [(''/users/:id'', Some ''u''), (''/a/b'', Some ''ab'')]) ''/a'' (Some ''a''))
       ''/a'') = Inr (Some ''a'', Some Map.empty, True)"
proof -
  have np: "no_params ''/a''"
    by (simp add: no_params_def is_param_def HasPrefix_def)
  have fresh: "''/a'' \<notin> fst ` set [(''/users/:id'', Some ''u''), (''/a/b'', Some ''ab'')]"
    by simp
  have miss: "matchRoutes ''/a''
      (bucket (build [(''/users/:id'', Some ''u''), (''/a/b'', Some ''ab'')]) ''/a'')
     = Inr (None, None, False)"
    by (simp add: build_def eval_defs)
  from np fresh miss
    round_trip [of "''/a''" "build [(''/users/:id'', Some ''u''), (''/a/b'', Some ''ab'')]"
      "Some ''a''" "[(''/users/:id'', Some ''u''), (''/a/b'', Some ''ab'')]"]
  show ?thesis by blast
qed

section \<open>The bucket of the empty key\<close>

text \<open>The empty key is looked up for the empty path only.\<close>

lemma truncations_Nil: "truncations [] = [[]]"
  by (rule truncations_stop) simp

lemma truncations_no_Nil: "path \<noteq> [] \<Longrightarrow> [] \<notin> set (truncations path)"
proof (induction path rule: truncations.induct)
  case (1 remaining)
  show ?case
  proof (cases rule: truncations_cases [of remaining])
    case stop
    with "1.prems" show ?thesis by simp
  next
    case cut
    let ?s = "take (nat (LastIndex remaining CHR ''/'')) remaining"
    from cut(2) "1.prems" have "?s \<noteq> []" by simp
    with cut "1.IH"(1) "1.prems" show ?thesis by simp
  next
    case root
    with "1.prems" show ?thesis by simp
  qed
qed

lemma Get_cong_keys:
  assumes "\<forall>k \<in> set (truncations path). roots r k = roots r' k"
  shows "fst (Get r path) = fst (Get r' path)"
proof -
  have f: "List.find (\<lambda>k. roots r k \<noteq> None) (truncations path)
      = List.find (\<lambda>k. roots r' k \<noteq> None) (truncations path)"
    using assms by (intro find_cong) simp_all
  show ?thesis
  proof (cases "List.find (\<lambda>k. roots r k \<noteq> None) (truncations path)")
    case None
    with f show ?thesis by (simp add: Get_def Get_loop_find)
  next
    case (Some k)
    then have "k \<in> set (truncations path)" by (auto simp: find_Some_iff in_set_conv_nth)
    with assms have "bucket r k = bucket r' k" by (simp add: bucket_def)
    with f Some show ?thesis by (simp add: Get_def Get_loop_find)
  qed
qed

lemma Get_Nil:
  "fst (Get r []) = (case roots r [] of None \<Rightarrow> Inr (None, None, False)
                     | Some rs \<Rightarrow> matchRoutes [] rs)"
  by (simp add: Get_def Get_loop.simps split: option.split)

lemma matchRoutes_filter:
  "\<forall>e \<in> set rs. \<not> P e \<longrightarrow> \<not> satisfies path e \<Longrightarrow>
     matchRoutes path (filter P rs) = matchRoutes path rs"
  by (induction rs) (auto simp: matchRoutes_Cons simp del: matchRoutes.simps(2))

lemma Get_drop_empty_key:
  "path \<noteq> [] \<Longrightarrow> fst (Get (drop_empty_key r) path) = fst (Get r path)"
proof (rule Get_cong_keys)
  assume "path \<noteq> []"
  then have "[] \<notin> set (truncations path)" by (rule truncations_no_Nil)
  then show "\<forall>k \<in> set (truncations path). roots (drop_empty_key r) k = roots r k"
    by (auto simp: drop_empty_key_def)
qed

lemma Get_drop_leading_params:
  "fst (Get (drop_leading_params r) path) = fst (Get r path)"
proof (cases "path = []")
  case True
  have "matchRoutes [] (filter (\<lambda>e. \<not> (prefix e = [] \<and> partNames e \<noteq> [])) rs)
      = matchRoutes [] rs" for rs :: "'a Route list"
    by (rule matchRoutes_filter) (auto simp: satisfies_own_prefix)
  with True show ?thesis
    by (simp add: Get_Nil drop_leading_params_def split: option.split)
next
  case False
  then have "[] \<notin> set (truncations path)" by (rule truncations_no_Nil)
  then have "\<forall>k \<in> set (truncations path). roots (drop_leading_params r) k = roots r k"
    by (auto simp: drop_leading_params_def)
  then show ?thesis by (rule Get_cong_keys)
qed

lemma Get_leading_param_only:
  assumes "static_prefix pattern = []" and "\<not> no_params pattern"
  shows "fst (Get (Add NewRoutes pattern h) path) = Inr (None, None, False)"
proof -
  have seg: "segments pattern \<noteq> []"
    using assms(2) by (simp add: segments_Nil_iff)
  have "roots (drop_leading_params (Add NewRoutes pattern h)) = [[] \<mapsto> []]"
    using assms(1) seg
    by (auto simp: drop_leading_params_def Add_spec NewRoutes_def bucket_def entry_of_def)
  then have "List.find (\<lambda>k. roots (drop_leading_params (Add NewRoutes pattern h)) k \<noteq> None)
      (truncations path) = Some k \<Longrightarrow>
      bucket (drop_leading_params (Add NewRoutes pattern h)) k = []" for k
    by (auto simp: bucket_def find_Some_iff split: if_splits)
  then have "fst (Get (drop_leading_params (Add NewRoutes pattern h)) path)
      = Inr (None, None, False)"
    by (simp add: Get_def Get_loop_find split: option.split)
  then show ?thesis by (simp add: Get_drop_leading_params)
qed

text \<open>
  Claim C9, as stated, fails for the empty path: the loop of \<open>Get\<close> starts with
  \<open>remaining = path\<close>, so the empty key is looked up, and a handler registered for the empty
  pattern is found there; without the bucket of the empty key nothing is found.
\<close>

theorem empty_key_counterexample:
  "[] \<in> set (truncations []) \<and>
   fst (Get (Add NewRoutes [] (Some ''h'')) []) = Inr (Some ''h'', Some Map.empty, True) \<and>
   fst (Get (drop_empty_key (Add NewRoutes [] (Some ''h''))) []) = Inr (None, None, False)"
  by (simp add: truncations_Nil drop_empty_key_def eval_defs)

text \<open>
  Claim C9, amended.  For every route table and every non-empty path the loop of \<open>Get\<close>
  never looks up the empty key, so the result is the same without the bucket of the empty
  key.  For every path, the empty one included, the result is the same without the entries
  of that bucket that have the empty prefix and at least one segment.  Hence a pattern with
  a parameter token whose static prefix is empty, such as \<open>/:id\<close>, is never resolved:
  registered alone, it leaves every path not found.
\<close>

theorem empty_key_unreachable:
  "(path \<noteq> [] \<longrightarrow>
      [] \<notin> set (truncations path) \<and> fst (Get (drop_empty_key r) path) = fst (Get r path)) \<and>
   fst (Get (drop_leading_params r) path) = fst (Get r path) \<and>
   (static_prefix pattern = [] \<longrightarrow> \<not> no_params pattern \<longrightarrow>
      fst (Get (Add NewRoutes pattern h) path) = Inr (None, None, False)) \<and>
   fst (Get (Add NewRoutes ''/:id'' h) path) = Inr (None, None, False)"
proof (intro conjI impI)
  assume "path \<noteq> []"
  then show "[] \<notin> set (truncations path)" by (rule truncations_no_Nil)
next
  assume "path \<noteq> []"
  then show "fst (Get (drop_empty_key r) path) = fst (Get r path)"
    by (rule Get_drop_empty_key)
next
  show "fst (Get (drop_leading_params r) path) = fst (Get r path)"
    by (rule Get_drop_leading_params)
next
  assume "static_prefix pattern = []" and "\<not> no_params pattern"
  then show "fst (Get (Add NewRoutes pattern h) path) = Inr (None, None, False)"
    by (rule Get_leading_param_only)
next
  have "static_prefix ''/:id'' = []" and "\<not> no_params ''/:id''"
    by (simp_all add: static_prefix_def no_params_def is_param_def HasPrefix_def)
  then show "fst (Get (Add NewRoutes ''/:id'' h) path) = Inr (None, None, False)"
    by (rule Get_leading_param_only)
qed

theorem empty_key_unreachable_witness:
  "''/42'' \<noteq> [] \<and> static_prefix '':id'' = [] \<and> \<not> no_params '':id'' \<and>
   [] \<notin> set (truncations ''/42'') \<and>
   fst (Get (Add NewRoutes '':id'' (Some ''h'')) ''/42'') = Inr (None, None, False)"
proof -
  have "static_prefix '':id'' = []" and "\<not> no_params '':id''"
    by (simp_all add: static_prefix_def no_params_def is_param_def HasPrefix_def)
  with empty_key_unreachable [of "''/42''" "Add NewRoutes '':id'' (Some ''h'')" "'':id''"
      "Some ''h''"]
  show ?thesis by simp
qed

end
